theory Spec2Isabelle
  imports Main "HOL-Library.Product_Lexorder"
begin

section \<open>Data model of minesweeper.py\<close>

text \<open>A cell is a Python tuple \<open>(i, j)\<close> of unbounded integers.\<close>

type_synonym cell = "int \<times> int"

text \<open>Class \<open>Sentence\<close>: a set of cells and a count. Python's \<open>__eq__\<close> compares
  both fields by value, which is equality of the record.\<close>

record sentence =
  cells :: "cell set"
  count :: int

definition Sentence :: "cell set \<Rightarrow> int \<Rightarrow> sentence" where
  "Sentence cs n = \<lparr>cells = cs, count = n\<rparr>"

text \<open>\<open>Sentence.known_mines\<close> and \<open>Sentence.known_safes\<close>: the method falls off its
  end (returning \<open>None\<close>) when the test fails.\<close>

definition known_mines :: "sentence \<Rightarrow> cell set option" where
  "known_mines t = (if int (card (cells t)) = count t then Some (cells t) else None)"

definition known_safes :: "sentence \<Rightarrow> cell set option" where
  "known_safes t = (if count t = 0 then Some (cells t) else None)"

text \<open>\<open>Sentence.mark_mine\<close> and \<open>Sentence.mark_safe\<close>; the in-place update of the
  object is the returned record.\<close>

definition Sentence_mark_mine :: "cell \<Rightarrow> sentence \<Rightarrow> sentence" where
  "Sentence_mark_mine c t =
     (if c \<in> cells t then t\<lparr>cells := cells t - {c}, count := count t - 1\<rparr> else t)"

definition Sentence_mark_safe :: "cell \<Rightarrow> sentence \<Rightarrow> sentence" where
  "Sentence_mark_safe c t =
     (if c \<in> cells t then t\<lparr>cells := cells t - {c}\<rparr> else t)"

text \<open>Class \<open>MinesweeperAI\<close>. The list \<open>knowledge\<close> owns its sentences (each
  \<open>Sentence\<close> copies its cell set on construction), so mutation of a sentence in place is
  replacement of the list element at its index.\<close>

record ai =
  height :: int
  width :: int
  moves_made :: "cell set"
  mines :: "cell set"
  safes :: "cell set"
  knowledge :: "sentence list"

definition MinesweeperAI :: "int \<Rightarrow> int \<Rightarrow> ai" where
  "MinesweeperAI h w =
     \<lparr>height = h, width = w, moves_made = {}, mines = {}, safes = {}, knowledge = []\<rparr>"

text \<open>\<open>MinesweeperAI.mark_mine\<close> and \<open>MinesweeperAI.mark_safe\<close>: add the cell to the
  fact set, then call the sentence's method on every sentence of the list. Neither has a
  \<open>raise\<close>, a test or an early return, so both are total state transformers.\<close>

definition AI_mark_mine :: "cell \<Rightarrow> ai \<Rightarrow> ai" where
  "AI_mark_mine c s =
     s\<lparr>mines := insert c (mines s), knowledge := map (Sentence_mark_mine c) (knowledge s)\<rparr>"

definition AI_mark_safe :: "cell \<Rightarrow> ai \<Rightarrow> ai" where
  "AI_mark_safe c s =
     s\<lparr>safes := insert c (safes s), knowledge := map (Sentence_mark_safe c) (knowledge s)\<rparr>"

text \<open>\<open>MinesweeperAI.add_knowledge\<close>, first part (the statements up to
  \<open>self.knowledge.append(Sentence(neighbors, count))\<close>). The two nested \<open>range\<close> loops
  visit the 3 by 3 block around the cell, the cell itself included; \<open>scan_cell\<close> is the
  loop body, acting on the local variables \<open>(neighbors, count)\<close>.\<close>

definition in_bounds :: "ai \<Rightarrow> cell \<Rightarrow> bool" where
  "in_bounds s p = (fst p \<ge> 0 \<and> snd p \<ge> 0 \<and> fst p < height s \<and> snd p < width s)"

definition block :: "cell \<Rightarrow> cell list" where
  "block c = concat (map (\<lambda>i. map (\<lambda>j. (i, j)) [snd c - 1 .. snd c + 1])
                         [fst c - 1 .. fst c + 1])"

definition scan_cell :: "ai \<Rightarrow> cell \<Rightarrow> cell set \<times> int \<Rightarrow> cell set \<times> int" where
  "scan_cell s p acc =
     (if in_bounds s p
      then (if p \<notin> moves_made s \<and> p \<notin> mines s then insert p (fst acc) else fst acc,
            if p \<in> mines s then snd acc - 1 else snd acc)
      else acc)"

definition add_sentence :: "cell \<Rightarrow> int \<Rightarrow> ai \<Rightarrow> ai" where
  "add_sentence c n s =
     (let s1 = s\<lparr>moves_made := insert c (moves_made s), safes := insert c (safes s)\<rparr>;
          acc = fold (scan_cell s1) (block c) ({}, n)
      in s1\<lparr>knowledge := knowledge s1 @ [Sentence (fst acc) (snd acc)]\<rparr>)"

text \<open>Second part: the loop \<open>for sentence in self.knowledge\<close> that marks cells.
  \<open>extract_at k\<close> is the loop body at list index \<open>k\<close>; it reads the sentence as it is
  when the loop reaches it, and reads it again for \<open>known_mines\<close> after the safe cells
  were marked. \<open>list(...)\<close> of a Python set has no specified order; the model takes the
  sorted one, and \<open>fold_AI_mark_safe_order\<close>, \<open>fold_AI_mark_mine_order\<close> below show
  that the order is immaterial. The loop never changes the length of the list.\<close>

definition extract_at :: "nat \<Rightarrow> ai \<Rightarrow> ai" where
  "extract_at k s =
     (let s1 = (case known_safes (knowledge s ! k) of
                  None \<Rightarrow> s
                | Some S \<Rightarrow> fold AI_mark_safe (sorted_list_of_set S) s);
          s2 = (case known_mines (knowledge s1 ! k) of
                  None \<Rightarrow> s1
                | Some M \<Rightarrow> fold AI_mark_mine (sorted_list_of_set M) s1)
      in s2)"

definition extract_pass :: "ai \<Rightarrow> ai" where
  "extract_pass s = fold extract_at [0..<length (knowledge s)] s"

text \<open>Third part: the two nested loops over \<open>self.knowledge\<close> that collect
  \<open>new_sentences\<close>, and the final \<open>extend\<close>. \<open>resolve_pair ks super sub\<close> is the inner
  loop body acting on \<open>new_sentences\<close>; \<open>ks\<close> is \<open>self.knowledge\<close>, which the loops do
  not change.\<close>

definition resolve_pair ::
  "sentence list \<Rightarrow> sentence \<Rightarrow> sentence \<Rightarrow> sentence list \<Rightarrow> sentence list" where
  "resolve_pair ks super sub new =
     (if cells sub \<subseteq> cells super
      then (let n = Sentence (cells super - cells sub) (count super - count sub)
            in if n \<notin> set ks then new @ [n] else new)
      else new)"

definition new_sentences :: "sentence list \<Rightarrow> sentence list" where
  "new_sentences ks =
     fold (\<lambda>super acc. fold (\<lambda>sub acc'. resolve_pair ks super sub acc') ks acc) ks []"

definition resolve_pass :: "ai \<Rightarrow> ai" where
  "resolve_pass s = s\<lparr>knowledge := knowledge s @ new_sentences (knowledge s)\<rparr>"

definition add_knowledge :: "cell \<Rightarrow> int \<Rightarrow> ai \<Rightarrow> ai" where
  "add_knowledge c n s = resolve_pass (extract_pass (add_sentence c n s))"

text \<open>\<open>MinesweeperAI.make_safe_move\<close>. \<open>safe_list\<close> is \<open>list(self.safes)\<close>, an
  enumeration of the set in an order Python does not specify, so it is an argument of the
  model; the loop returns the first cell of it that is not in \<open>moves_made\<close>. The method
  assigns to no field: the state it returns is the state it was given.\<close>

definition make_safe_move :: "cell list \<Rightarrow> ai \<Rightarrow> cell option \<times> ai" where
  "make_safe_move safe_list s = (find (\<lambda>c. c \<notin> moves_made s) safe_list, s)"

text \<open>\<open>MinesweeperAI.make_random_move\<close>. The loops over \<open>range(self.height)\<close> and
  \<open>range(self.width)\<close> collect \<open>possible_moves\<close>; \<open>random.choice(list(possible_moves))\<close>
  is the argument \<open>choice\<close>, a function that picks a member of a non-empty finite set.\<close>

definition all_cells :: "ai \<Rightarrow> cell list" where
  "all_cells s = concat (map (\<lambda>i. map (\<lambda>j. (i, j)) [0 .. width s - 1]) [0 .. height s - 1])"

definition possible_moves :: "ai \<Rightarrow> cell set" where
  "possible_moves s =
     fold (\<lambda>p acc. if p \<notin> moves_made s \<and> p \<notin> mines s then insert p acc else acc)
          (all_cells s) {}"

definition make_random_move :: "(cell set \<Rightarrow> cell) \<Rightarrow> ai \<Rightarrow> cell option \<times> ai" where
  "make_random_move choice s =
     (if card (possible_moves s) = 0 then (None, s)
      else (Some (choice (possible_moves s)), s))"

text \<open>Class \<open>Minesweeper\<close>, the board: its dimensions and the grid \<open>board\<close> of booleans.
  \<open>nearby_mines\<close> scans the same 3 by 3 block, skips the cell itself and reads the grid
  only inside the bounds. \<open>is_mine\<close> reads the grid at the cell; it is used here only
  for cells inside the bounds.\<close>

record minesweeper =
  board_height :: int
  board_width :: int
  board :: "bool list list"

definition is_mine :: "minesweeper \<Rightarrow> cell \<Rightarrow> bool" where
  "is_mine g c = board g ! nat (fst c) ! nat (snd c)"

definition nearby_mines :: "minesweeper \<Rightarrow> cell \<Rightarrow> int" where
  "nearby_mines g c =
     fold (\<lambda>p cnt.
             if p = c then cnt
             else if 0 \<le> fst p \<and> fst p < board_height g \<and> 0 \<le> snd p \<and> snd p < board_width g
                  then (if board g ! nat (fst p) ! nat (snd p) then cnt + 1 else cnt)
                  else cnt)
          (block c) 0"

text \<open>A game fed by a sound board: the agent is created with the board's dimensions, and
  every observation is \<open>add_knowledge(c, nearby_mines(c))\<close> for a cell \<open>c\<close> of the board
  that is not a mine. \<open>play g cs\<close> is the agent after the observations \<open>cs\<close>, in order.\<close>

definition on_board :: "minesweeper \<Rightarrow> cell \<Rightarrow> bool" where
  "on_board g p = (0 \<le> fst p \<and> fst p < board_height g \<and> 0 \<le> snd p \<and> snd p < board_width g)"

definition sound_moves :: "minesweeper \<Rightarrow> cell list \<Rightarrow> bool" where
  "sound_moves g cs = list_all (\<lambda>c. on_board g c \<and> \<not> is_mine g c) cs"

definition play :: "minesweeper \<Rightarrow> cell list \<Rightarrow> ai" where
  "play g cs = fold (\<lambda>c s. add_knowledge c (nearby_mines g c) s) cs
                    (MinesweeperAI (board_height g) (board_width g))"

text \<open>The mines of a board, and what it means for the agent's state to be true of the
  board: no played or safe cell is a mine, every known mine is one, and every sentence has
  finitely many cells of which exactly \<open>count\<close> are mines.\<close>

definition board_mines :: "minesweeper \<Rightarrow> cell set" where
  "board_mines g = {p. on_board g p \<and> is_mine g p}"

definition sentence_true :: "minesweeper \<Rightarrow> sentence \<Rightarrow> bool" where
  "sentence_true g t = (finite (cells t) \<and> int (card (cells t \<inter> board_mines g)) = count t)"

definition state_true :: "minesweeper \<Rightarrow> ai \<Rightarrow> bool" where
  "state_true g s =
     (height s = board_height g \<and> width s = board_width g
      \<and> moves_made s \<inter> board_mines g = {} \<and> safes s \<inter> board_mines g = {}
      \<and> mines s \<subseteq> board_mines g \<and> list_all (sentence_true g) (knowledge s))"

text \<open>\<open>keeps_sentences s s'\<close>: every sentence of \<open>s\<close> is still in the list of \<open>s'\<close>, at
  the index it had, with no cell added to it, and a sentence with no cells and count 0 is
  there unchanged.\<close>

definition keeps_sentences :: "ai \<Rightarrow> ai \<Rightarrow> bool" where
  "keeps_sentences s s' =
     (length (knowledge s) \<le> length (knowledge s')
      \<and> list_all (\<lambda>i. cells (knowledge s' ! i) \<subseteq> cells (knowledge s ! i)
                      \<and> (knowledge s ! i = Sentence {} 0 \<longrightarrow> knowledge s' ! i = Sentence {} 0))
                  [0..<length (knowledge s)])"

section \<open>Sentence operations\<close>

lemma Sentence_mark_mine_absent: "c \<notin> cells t \<Longrightarrow> Sentence_mark_mine c t = t"
  by (simp add: Sentence_mark_mine_def)

lemma Sentence_mark_safe_absent: "c \<notin> cells t \<Longrightarrow> Sentence_mark_safe c t = t"
  by (simp add: Sentence_mark_safe_def)

lemma Sentence_mark_mine_cells: "cells (Sentence_mark_mine c t) = cells t - {c}"
  by (simp add: Sentence_mark_mine_def)

lemma Sentence_mark_safe_cells: "cells (Sentence_mark_safe c t) = cells t - {c}"
  by (simp add: Sentence_mark_safe_def)

text \<open>C5. \<open>Sentence.mark_mine\<close> removes a member cell and lowers the count by exactly
  one, \<open>Sentence.mark_safe\<close> removes a member cell and keeps the count, and both leave
  the sentence as it is when the cell is not a member. Each takes one sentence and
  returns that sentence only: there is no other state it could touch.\<close>

theorem C5_sentence_mark:
  "Sentence_mark_mine c t =
     (if c \<in> cells t then \<lparr>cells = cells t - {c}, count = count t - 1\<rparr> else t)
   \<and> Sentence_mark_safe c t =
     (if c \<in> cells t then \<lparr>cells = cells t - {c}, count = count t\<rparr> else t)"
  by (simp add: Sentence_mark_mine_def Sentence_mark_safe_def)

text \<open>C6 (as the code has it). \<open>known_mines\<close> returns the cell set exactly when the
  number of cells equals the count, with no test that the count is positive, and
  \<open>None\<close> otherwise; \<open>known_safes\<close> returns the cell set exactly when the count is 0,
  and \<open>None\<close> otherwise.\<close>

theorem C6_known_exact:
  "known_mines t = (if int (card (cells t)) = count t then Some (cells t) else None)
   \<and> known_safes t = (if count t = 0 then Some (cells t) else None)"
  by (simp add: known_mines_def known_safes_def)

text \<open>C6, the claim as stated fails: the sentence with no cells and count 0 has
  \<open>|cells| = count\<close> but not \<open>count > 0\<close>, and \<open>known_mines\<close> returns its (empty) cell
  set, not \<open>None\<close>.\<close>

theorem C6_counterexample:
  "known_mines (Sentence {} 0) = Some {} \<and> \<not> (0 < count (Sentence {} 0))"
  by (simp add: known_mines_def Sentence_def)

section \<open>Marking a cell in the knowledge base\<close>

lemma Sentence_mark_mine_twice:
  "Sentence_mark_mine c (Sentence_mark_mine c t) = Sentence_mark_mine c t"
  by (simp add: Sentence_mark_mine_def)

lemma Sentence_mark_safe_twice:
  "Sentence_mark_safe c (Sentence_mark_safe c t) = Sentence_mark_safe c t"
  by (simp add: Sentence_mark_safe_def)

text \<open>C7. Marking the same cell a second time, as a mine or as safe, gives the state
  the first marking gave: all six fields of the agent, every sentence included.\<close>

theorem C7_mark_idempotent:
  "AI_mark_mine c (AI_mark_mine c s) = AI_mark_mine c s
   \<and> AI_mark_safe c (AI_mark_safe c s) = AI_mark_safe c s"
  by (simp add: AI_mark_mine_def AI_mark_safe_def
      Sentence_mark_mine_twice Sentence_mark_safe_twice comp_def)

text \<open>C2 (as the code has it). Marking a cell as a mine and as safe, in either order,
  is accepted: both calls return a state, and in it the cell is in \<open>mines\<close> and in
  \<open>safes\<close>.\<close>

theorem C2_both_accepted:
  "c \<in> mines (AI_mark_safe c (AI_mark_mine c s)) \<and> c \<in> safes (AI_mark_safe c (AI_mark_mine c s))
   \<and> c \<in> mines (AI_mark_mine c (AI_mark_safe c s)) \<and> c \<in> safes (AI_mark_mine c (AI_mark_safe c s))"
  by (simp add: AI_mark_mine_def AI_mark_safe_def)

text \<open>C2, the claim as stated fails: on a fresh 8 by 8 agent, \<open>mark_mine((0, 0))\<close>
  followed by \<open>mark_safe((0, 0))\<close> returns the state below, with the cell in both sets;
  the model of the two methods has no error outcome because the source has none.\<close>

theorem C2_counterexample:
  "AI_mark_safe (0, 0) (AI_mark_mine (0, 0) (MinesweeperAI 8 8))
     = \<lparr>height = 8, width = 8, moves_made = {}, mines = {(0, 0)}, safes = {(0, 0)},
        knowledge = []\<rparr>
   \<and> (0, 0) \<in> mines (AI_mark_safe (0, 0) (AI_mark_mine (0, 0) (MinesweeperAI 8 8)))
       \<inter> safes (AI_mark_safe (0, 0) (AI_mark_mine (0, 0) (MinesweeperAI 8 8)))"
  by (simp add: AI_mark_mine_def AI_mark_safe_def MinesweeperAI_def)

section \<open>The loops of add_knowledge in closed form\<close>

lemma Diff_single_Diff: "A - {x} - X = A - insert x X"
  by auto

lemma fold_AI_mark_safe:
  "fold AI_mark_safe xs s =
     s\<lparr>safes := safes s \<union> set xs,
       knowledge := map (\<lambda>t. t\<lparr>cells := cells t - set xs\<rparr>) (knowledge s)\<rparr>"
proof (induction xs arbitrary: s)
  case Nil
  show ?case by simp
next
  case (Cons x xs)
  have step: "\<And>t. (Sentence_mark_safe x t)\<lparr>cells := cells (Sentence_mark_safe x t) - set xs\<rparr>
            = t\<lparr>cells := cells t - insert x (set xs)\<rparr>"
    by (auto simp add: Sentence_mark_safe_def Diff_single_Diff)
  have "fold AI_mark_safe (x # xs) s = fold AI_mark_safe xs (AI_mark_safe x s)"
    by simp
  also have "\<dots> = (AI_mark_safe x s)\<lparr>safes := safes (AI_mark_safe x s) \<union> set xs,
       knowledge := map (\<lambda>t. t\<lparr>cells := cells t - set xs\<rparr>) (knowledge (AI_mark_safe x s))\<rparr>"
    by (rule Cons.IH)
  also have "\<dots> = s\<lparr>safes := safes s \<union> set (x # xs),
       knowledge := map (\<lambda>t. t\<lparr>cells := cells t - set (x # xs)\<rparr>) (knowledge s)\<rparr>"
    by (simp add: AI_mark_safe_def comp_def step)
  finally show ?case .
qed

lemma card_inter_insert:
  "finite X \<Longrightarrow> int (card (A \<inter> insert x X)) = (if x \<in> A then 1 else 0) + int (card ((A - {x}) \<inter> X))"
proof -
  assume f: "finite X"
  show ?thesis
  proof (cases "x \<in> A")
    case True
    then have "A \<inter> insert x X = insert x ((A - {x}) \<inter> X)" by auto
    moreover have "x \<notin> (A - {x}) \<inter> X" by simp
    moreover have "finite ((A - {x}) \<inter> X)" using f by simp
    ultimately show ?thesis using True by simp
  next
    case False
    then have "A \<inter> insert x X = (A - {x}) \<inter> X" by auto
    then show ?thesis using False by simp
  qed
qed

lemma fold_AI_mark_mine:
  "fold AI_mark_mine xs s =
     s\<lparr>mines := mines s \<union> set xs,
       knowledge := map (\<lambda>t. t\<lparr>cells := cells t - set xs,
                                count := count t - int (card (cells t \<inter> set xs))\<rparr>) (knowledge s)\<rparr>"
proof (induction xs arbitrary: s)
  case Nil
  show ?case by simp
next
  case (Cons x xs)
  have step: "\<And>t. (Sentence_mark_mine x t)\<lparr>cells := cells (Sentence_mark_mine x t) - set xs,
               count := count (Sentence_mark_mine x t) - int (card (cells (Sentence_mark_mine x t) \<inter> set xs))\<rparr>
            = t\<lparr>cells := cells t - insert x (set xs), count := count t - int (card (cells t \<inter> insert x (set xs)))\<rparr>"
    by (auto simp add: Sentence_mark_mine_def card_inter_insert Diff_single_Diff)
  have "fold AI_mark_mine (x # xs) s = fold AI_mark_mine xs (AI_mark_mine x s)"
    by simp
  also have "\<dots> = (AI_mark_mine x s)\<lparr>mines := mines (AI_mark_mine x s) \<union> set xs,
       knowledge := map (\<lambda>t. t\<lparr>cells := cells t - set xs,
                                count := count t - int (card (cells t \<inter> set xs))\<rparr>) (knowledge (AI_mark_mine x s))\<rparr>"
    by (rule Cons.IH)
  also have "\<dots> = s\<lparr>mines := mines s \<union> set (x # xs),
       knowledge := map (\<lambda>t. t\<lparr>cells := cells t - set (x # xs),
                                count := count t - int (card (cells t \<inter> set (x # xs)))\<rparr>) (knowledge s)\<rparr>"
    by (simp add: AI_mark_mine_def comp_def step)
  finally show ?case .
qed

lemma fold_AI_mark_safe_order:
  "set xs = set ys \<Longrightarrow> fold AI_mark_safe xs s = fold AI_mark_safe ys s"
  by (simp add: fold_AI_mark_safe)

lemma fold_AI_mark_mine_order:
  "set xs = set ys \<Longrightarrow> fold AI_mark_mine xs s = fold AI_mark_mine ys s"
  by (simp add: fold_AI_mark_mine)

lemma upto_three: "[a - 1 .. a + 1] = [a - 1, a, a + (1::int)]"
  by (simp add: upto_rec1)

lemma block_explicit:
  "block c = [(fst c - 1, snd c - 1), (fst c - 1, snd c), (fst c - 1, snd c + 1),
              (fst c, snd c - 1), (fst c, snd c), (fst c, snd c + 1),
              (fst c + 1, snd c - 1), (fst c + 1, snd c), (fst c + 1, snd c + 1)]"
  by (simp add: block_def upto_three)

lemma distinct_block: "distinct (block c)"
  by (cases c) (simp add: block_explicit)

lemma cell_in_block: "c \<in> set (block c)"
  by (cases c) (simp add: block_explicit)

lemma fold_scan_cell:
  "fold (scan_cell s) xs acc =
     (fst acc \<union> {p \<in> set xs. in_bounds s p \<and> p \<notin> moves_made s \<and> p \<notin> mines s},
      snd acc - int (length (filter (\<lambda>p. in_bounds s p \<and> p \<in> mines s) xs)))"
proof (induction xs arbitrary: acc)
  case Nil
  show ?case by simp
next
  case (Cons x xs)
  show ?case
    by (simp add: Cons.IH) (auto simp add: scan_cell_def)
qed

lemma scan_block:
  "fold (scan_cell s) (block c) ({}, n) =
     ({p \<in> set (block c). in_bounds s p \<and> p \<notin> moves_made s \<and> p \<notin> mines s},
      n - int (card {p \<in> set (block c). in_bounds s p \<and> p \<in> mines s}))"
proof -
  have "length (filter (\<lambda>p. in_bounds s p \<and> p \<in> mines s) (block c))
          = card {p \<in> set (block c). in_bounds s p \<and> p \<in> mines s}"
    using distinct_length_filter [OF distinct_block, of "\<lambda>p. in_bounds s p \<and> p \<in> mines s" c]
    by (simp add: Int_def conj_commute)
  then show ?thesis by (simp add: fold_scan_cell)
qed

lemma in_bounds_upd [simp]:
  "in_bounds (s\<lparr>moves_made := m, safes := f\<rparr>) p = in_bounds s p"
  by (simp add: in_bounds_def)

lemma add_sentence_eq:
  "add_sentence c n s =
     s\<lparr>moves_made := insert c (moves_made s), safes := insert c (safes s),
       knowledge := knowledge s @
         [Sentence {p \<in> set (block c). p \<noteq> c \<and> in_bounds s p \<and> p \<notin> moves_made s \<and> p \<notin> mines s}
                   (n - int (card {p \<in> set (block c). in_bounds s p \<and> p \<in> mines s}))]\<rparr>"
proof -
  have "{p \<in> set (block c). in_bounds s p \<and> p \<notin> insert c (moves_made s) \<and> p \<notin> mines s}
      = {p \<in> set (block c). p \<noteq> c \<and> in_bounds s p \<and> p \<notin> moves_made s \<and> p \<notin> mines s}"
    by auto
  then show ?thesis
    by (simp add: add_sentence_def Let_def scan_block)
qed

section \<open>Sentences are never removed\<close>

lemma keeps_sentences_iff:
  "keeps_sentences s s' \<longleftrightarrow>
     length (knowledge s) \<le> length (knowledge s')
     \<and> (\<forall>i<length (knowledge s).
           cells (knowledge s' ! i) \<subseteq> cells (knowledge s ! i)
           \<and> (knowledge s ! i = Sentence {} 0 \<longrightarrow> knowledge s' ! i = Sentence {} 0))"
  by (auto simp add: keeps_sentences_def list_all_iff)

lemma keeps_sentences_refl: "keeps_sentences s s"
  by (simp add: keeps_sentences_iff)

lemma keeps_sentences_trans:
  "keeps_sentences s s' \<Longrightarrow> keeps_sentences s' s'' \<Longrightarrow> keeps_sentences s s''"
  unfolding keeps_sentences_iff
proof (intro conjI allI impI)
  assume a: "length (knowledge s) \<le> length (knowledge s') \<and>
    (\<forall>i<length (knowledge s). cells (knowledge s' ! i) \<subseteq> cells (knowledge s ! i)
       \<and> (knowledge s ! i = Sentence {} 0 \<longrightarrow> knowledge s' ! i = Sentence {} 0))"
    and b: "length (knowledge s') \<le> length (knowledge s'') \<and>
    (\<forall>i<length (knowledge s'). cells (knowledge s'' ! i) \<subseteq> cells (knowledge s' ! i)
       \<and> (knowledge s' ! i = Sentence {} 0 \<longrightarrow> knowledge s'' ! i = Sentence {} 0))"
  show "length (knowledge s) \<le> length (knowledge s'')" using a b by simp
  fix i assume i: "i < length (knowledge s)"
  then have i': "i < length (knowledge s')" using a by simp
  show "cells (knowledge s'' ! i) \<subseteq> cells (knowledge s ! i)"
    using a b i i' by blast
  assume "knowledge s ! i = Sentence {} 0"
  then show "knowledge s'' ! i = Sentence {} 0"
    using a b i i' by blast
qed

lemma keeps_sentences_same_length:
  "length (knowledge s') = length (knowledge s) \<Longrightarrow>
   (\<And>i. i < length (knowledge s) \<Longrightarrow>
      cells (knowledge s' ! i) \<subseteq> cells (knowledge s ! i)
      \<and> (knowledge s ! i = Sentence {} 0 \<longrightarrow> knowledge s' ! i = Sentence {} 0)) \<Longrightarrow>
   keeps_sentences s s'"
  by (simp add: keeps_sentences_iff)

lemma keeps_fold_AI_mark_safe: "keeps_sentences s (fold AI_mark_safe xs s)"
  by (rule keeps_sentences_same_length)
     (auto simp add: fold_AI_mark_safe Sentence_def)

lemma keeps_fold_AI_mark_mine: "keeps_sentences s (fold AI_mark_mine xs s)"
  by (rule keeps_sentences_same_length)
     (auto simp add: fold_AI_mark_mine Sentence_def)

lemma length_fold_AI_mark_safe [simp]:
  "length (knowledge (fold AI_mark_safe xs s)) = length (knowledge s)"
  by (simp add: fold_AI_mark_safe)

lemma length_fold_AI_mark_mine [simp]:
  "length (knowledge (fold AI_mark_mine xs s)) = length (knowledge s)"
  by (simp add: fold_AI_mark_mine)

lemma length_extract_at [simp]:
  "length (knowledge (extract_at k s)) = length (knowledge s)"
  by (simp add: extract_at_def Let_def split: option.split)

lemma keeps_extract_at: "keeps_sentences s (extract_at k s)"
proof -
  let ?s1 = "case known_safes (knowledge s ! k) of None \<Rightarrow> s
             | Some S \<Rightarrow> fold AI_mark_safe (sorted_list_of_set S) s"
  have 1: "keeps_sentences s ?s1"
    by (simp add: keeps_sentences_refl keeps_fold_AI_mark_safe split: option.split)
  have 2: "keeps_sentences ?s1 (extract_at k s)"
    by (simp add: extract_at_def Let_def keeps_sentences_refl keeps_fold_AI_mark_mine
        split: option.split)
  show ?thesis by (rule keeps_sentences_trans [OF 1 2])
qed

lemma length_fold_extract_at [simp]:
  "length (knowledge (fold extract_at ks s)) = length (knowledge s)"
  by (induction ks arbitrary: s) simp_all

lemma keeps_fold_extract_at: "keeps_sentences s (fold extract_at ks s)"
proof (induction ks arbitrary: s)
  case Nil
  show ?case by (simp add: keeps_sentences_refl)
next
  case (Cons k ks)
  show ?case
    using keeps_sentences_trans [OF keeps_extract_at Cons.IH] by simp
qed

lemma keeps_add_sentence: "keeps_sentences s (add_sentence c n s)"
  by (simp add: keeps_sentences_iff add_sentence_eq nth_append)

lemma keeps_resolve_pass: "keeps_sentences s (resolve_pass s)"
  by (simp add: keeps_sentences_iff resolve_pass_def nth_append)

lemma keeps_add_knowledge: "keeps_sentences s (add_knowledge c n s)"
  unfolding add_knowledge_def extract_pass_def
  by (rule keeps_sentences_trans [OF keeps_add_sentence
        keeps_sentences_trans [OF keeps_fold_extract_at keeps_resolve_pass]])

lemma length_add_knowledge:
  "length (knowledge s) < length (knowledge (add_knowledge c n s))"
  by (simp add: add_knowledge_def extract_pass_def resolve_pass_def add_sentence_eq)

text \<open>C10. No operation of the agent shortens the list \<open>knowledge\<close>: \<open>mark_mine\<close> and
  \<open>mark_safe\<close> keep its length, \<open>add_knowledge\<close> makes it longer, and after each of them
  every sentence that was in the list is still at its index, with a cell set that can only
  have shrunk; a sentence with no cells and count 0 stays exactly as it is.\<close>

theorem C10_no_removal:
  "length (knowledge (AI_mark_mine c s)) = length (knowledge s)
   \<and> length (knowledge (AI_mark_safe c s)) = length (knowledge s)
   \<and> length (knowledge s) < length (knowledge (add_knowledge c n s))
   \<and> (\<forall>i<length (knowledge s).
        cells (knowledge (AI_mark_mine c s) ! i) \<subseteq> cells (knowledge s ! i)
        \<and> cells (knowledge (AI_mark_safe c s) ! i) \<subseteq> cells (knowledge s ! i)
        \<and> cells (knowledge (add_knowledge c n s) ! i) \<subseteq> cells (knowledge s ! i)
        \<and> (knowledge s ! i = Sentence {} 0 \<longrightarrow>
             knowledge (AI_mark_mine c s) ! i = Sentence {} 0
             \<and> knowledge (AI_mark_safe c s) ! i = Sentence {} 0
             \<and> knowledge (add_knowledge c n s) ! i = Sentence {} 0))"
proof -
  have m: "keeps_sentences s (AI_mark_mine c s)"
    using keeps_fold_AI_mark_mine [of s "[c]"] by simp
  have f: "keeps_sentences s (AI_mark_safe c s)"
    using keeps_fold_AI_mark_safe [of s "[c]"] by simp
  have a: "keeps_sentences s (add_knowledge c n s)"
    by (rule keeps_add_knowledge)
  have l: "length (knowledge (AI_mark_mine c s)) = length (knowledge s)"
          "length (knowledge (AI_mark_safe c s)) = length (knowledge s)"
    by (simp_all add: AI_mark_mine_def AI_mark_safe_def)
  show ?thesis
    using m f a l length_add_knowledge [of s c n]
    unfolding keeps_sentences_iff by simp
qed

text \<open>C10 at a concrete state: the sentence with no cells at index 1 of the 1 by 4 agent
  after its first observation survives each of the three operations.\<close>

theorem C10_no_removal_witness:
  "(1::nat) < length (knowledge (add_knowledge (0, 1) 1 (MinesweeperAI 1 4)))
   \<and> knowledge (add_knowledge (0, 1) 1 (MinesweeperAI 1 4)) ! 1 = Sentence {} 0
   \<and> knowledge (AI_mark_mine (0, 3) (add_knowledge (0, 1) 1 (MinesweeperAI 1 4))) ! 1 = Sentence {} 0
   \<and> knowledge (AI_mark_safe (0, 3) (add_knowledge (0, 1) 1 (MinesweeperAI 1 4))) ! 1 = Sentence {} 0
   \<and> knowledge (add_knowledge (0, 3) 0 (add_knowledge (0, 1) 1 (MinesweeperAI 1 4))) ! 1 = Sentence {} 0
   \<and> length (knowledge (add_knowledge (0, 1) 1 (MinesweeperAI 1 4)))
       < length (knowledge (add_knowledge (0, 3) 0 (add_knowledge (0, 1) 1 (MinesweeperAI 1 4))))"
proof -
  let ?s = "add_knowledge (0, 1) 1 (MinesweeperAI 1 4)"
  have h1: "(1::nat) < length (knowledge ?s)" by code_simp
  have h2: "knowledge ?s ! 1 = Sentence {} 0" by code_simp
  show ?thesis
    using C10_no_removal [of "(0, 3)" ?s 0] h1 h2 by blast
qed

section \<open>The resolution pass\<close>

lemma resolve_pair_append: "resolve_pair ks A B acc = acc @ resolve_pair ks A B []"
  by (simp add: resolve_pair_def Let_def)

lemma fold_resolve_pair:
  "fold (\<lambda>sub acc'. resolve_pair ks A sub acc') bs acc
     = acc @ concat (map (\<lambda>B. resolve_pair ks A B []) bs)"
proof (induction bs arbitrary: acc)
  case Nil
  show ?case by simp
next
  case (Cons b bs)
  show ?case
    using resolve_pair_append [of ks A b acc] by (simp add: Cons.IH)
qed

lemma fold_append_each:
  "fold (\<lambda>a acc. acc @ f a) as acc0 = acc0 @ concat (map f as)"
  by (induction as arbitrary: acc0) simp_all

lemma new_sentences_eq:
  "new_sentences ks = concat (map (\<lambda>A. concat (map (\<lambda>B. resolve_pair ks A B []) ks)) ks)"
  by (simp add: new_sentences_def fold_resolve_pair fold_append_each)

lemma new_sentences_member:
  "C \<in> set (new_sentences ks) \<longleftrightarrow>
     C \<notin> set ks \<and> (\<exists>A\<in>set ks. \<exists>B\<in>set ks. cells B \<subseteq> cells A
        \<and> C = Sentence (cells A - cells B) (count A - count B))"
  by (auto simp add: new_sentences_eq resolve_pair_def Let_def split: if_splits)

text \<open>C4 (as the code has it). The resolution pass appends \<open>new_sentences\<close> to the
  base. That list holds one derived sentence \<open>(A.cells - B.cells, A.count - B.count)\<close> for
  every ordered pair \<open>(A, B)\<close> of list entries, \<open>A\<close> paired with itself included, with
  \<open>B.cells \<subseteq> A.cells\<close>, whenever no equal sentence is in the base as it stood before
  the pass; there is no test that the two are distinct, that \<open>B.cells\<close> is non-empty or
  that the cell sets differ, and nothing is compared with the sentences collected earlier
  in the same pass.\<close>

theorem C4_resolution_pass:
  "knowledge (resolve_pass s) = knowledge s @ new_sentences (knowledge s)
   \<and> new_sentences ks =
       concat (map (\<lambda>A. concat (map (\<lambda>B.
         if cells B \<subseteq> cells A \<and> Sentence (cells A - cells B) (count A - count B) \<notin> set ks
         then [Sentence (cells A - cells B) (count A - count B)] else []) ks)) ks)
   \<and> (C \<in> set (new_sentences ks) \<longleftrightarrow>
        C \<notin> set ks \<and> (\<exists>A\<in>set ks. \<exists>B\<in>set ks. cells B \<subseteq> cells A
          \<and> C = Sentence (cells A - cells B) (count A - count B)))"
proof -
  have "\<And>A B. resolve_pair ks A B [] =
     (if cells B \<subseteq> cells A \<and> Sentence (cells A - cells B) (count A - count B) \<notin> set ks
         then [Sentence (cells A - cells B) (count A - count B)] else [])"
    by (simp add: resolve_pair_def Let_def)
  then show ?thesis
    using new_sentences_member [of C ks]
    by (simp add: resolve_pass_def new_sentences_eq)
qed

text \<open>C4, the claim as stated fails. A base of one sentence is resolved with itself and
  yields the sentence with no cells and count 0 (this is the first observation on a fresh
  1 by 4 agent); after the second observation \<open>(0, 3)\<close> with count 0 the base holds that
  sentence twice; and a sentence with no cells takes part as \<open>B\<close>, here in a base built by
  hand, where the same pass also appends one sentence twice.\<close>

theorem C4_counterexample:
  "new_sentences [Sentence {(0, 0), (0, 2)} 1] = [Sentence {} 0]
   \<and> knowledge (add_knowledge (0, 1) 1 (MinesweeperAI 1 4))
       = [Sentence {(0, 0), (0, 2)} 1, Sentence {} 0]
   \<and> knowledge (add_knowledge (0, 3) 0 (add_knowledge (0, 1) 1 (MinesweeperAI 1 4)))
       = [Sentence {(0, 0)} 1, Sentence {} 0, Sentence {} 0]
   \<and> \<not> distinct (knowledge (add_knowledge (0, 3) 0 (add_knowledge (0, 1) 1 (MinesweeperAI 1 4))))
   \<and> new_sentences [Sentence {(0, 0)} 1, Sentence {} 1]
       = [Sentence {} 0, Sentence {(0, 0)} 0, Sentence {} 0]"
  by code_simp

section \<open>Ingesting an observation\<close>

lemma extract_at_moves_made [simp]: "moves_made (extract_at k s) = moves_made s"
  by (simp add: extract_at_def Let_def fold_AI_mark_safe fold_AI_mark_mine split: option.split)

lemma extract_at_safes: "safes s \<subseteq> safes (extract_at k s)"
  by (auto simp add: extract_at_def Let_def fold_AI_mark_safe fold_AI_mark_mine split: option.split)

lemma fold_extract_at_moves_made [simp]: "moves_made (fold extract_at ks s) = moves_made s"
  by (induction ks arbitrary: s) simp_all

lemma fold_extract_at_safes: "safes s \<subseteq> safes (fold extract_at ks s)"
proof (induction ks arbitrary: s)
  case Nil
  show ?case by simp
next
  case (Cons k ks)
  show ?case using extract_at_safes [of s k] Cons.IH [of "extract_at k s"] by auto
qed

text \<open>C3 (as the code has it). \<open>add_knowledge(cell, count)\<close> adds the cell to
  \<open>moves_made\<close> and to \<open>safes\<close>. The sentence it appends, always and as the last entry of
  the list, has as cells the cells of the 3 by 3 block other than \<open>cell\<close> that are inside
  the bounds, not in \<open>moves_made\<close> and not in \<open>mines\<close> (a neighbour known safe but not
  played is included), and as count the given count less one for every in-bounds cell of
  the block that is in \<open>mines\<close>, \<open>cell\<close> itself included should it be there.\<close>

theorem C3_new_sentence:
  "moves_made (add_knowledge c n s) = insert c (moves_made s)
   \<and> c \<in> safes (add_knowledge c n s)
   \<and> moves_made (add_sentence c n s) = insert c (moves_made s)
   \<and> safes (add_sentence c n s) = insert c (safes s)
   \<and> mines (add_sentence c n s) = mines s
   \<and> length (knowledge (add_sentence c n s)) = length (knowledge s) + 1
   \<and> last (knowledge (add_sentence c n s)) =
       Sentence {p \<in> set (block c). p \<noteq> c \<and> in_bounds s p \<and> p \<notin> moves_made s \<and> p \<notin> mines s}
                (n - int (card {p \<in> set (block c). in_bounds s p \<and> p \<in> mines s}))"
proof -
  have "c \<in> safes (add_sentence c n s)" by (simp add: add_sentence_eq)
  then have "c \<in> safes (fold extract_at [0..<length (knowledge (add_sentence c n s))] (add_sentence c n s))"
    using fold_extract_at_safes by blast
  then have "c \<in> safes (add_knowledge c n s)"
    by (simp add: add_knowledge_def extract_pass_def resolve_pass_def)
  moreover have "moves_made (add_knowledge c n s) = insert c (moves_made s)"
    by (simp add: add_knowledge_def extract_pass_def resolve_pass_def add_sentence_eq)
  ultimately show ?thesis by (simp add: add_sentence_eq)
qed

text \<open>C3, the claim as stated fails. On a fresh 1 by 5 agent, after the observations
  \<open>(0, 4)\<close> with count 0 and \<open>(0, 1)\<close> with count 1, the observation \<open>(0, 2)\<close> with count 0
  appends a sentence over \<open>(0, 3)\<close>, a neighbour already known safe, and the older sentence
  over \<open>(0, 0)\<close> and \<open>(0, 2)\<close> still holds the observed cell, also when the whole call has
  returned. On a fresh 1 by 1 agent the sentence appended has no cells. With the observed
  cell itself in \<open>mines\<close> the count drops by one for it.\<close>

theorem C3_counterexample:
  "add_knowledge (0, 1) 1 (add_knowledge (0, 4) 0 (MinesweeperAI 1 5))
     = \<lparr>height = 1, width = 5, moves_made = {(0, 1), (0, 4)}, mines = {},
        safes = {(0, 1), (0, 3), (0, 4)},
        knowledge = [Sentence {} 0, Sentence {(0, 0), (0, 2)} 1]\<rparr>
   \<and> knowledge (add_sentence (0, 2) 0 (add_knowledge (0, 1) 1 (add_knowledge (0, 4) 0 (MinesweeperAI 1 5))))
     = [Sentence {} 0, Sentence {(0, 0), (0, 2)} 1, Sentence {(0, 3)} 0]
   \<and> knowledge (add_knowledge (0, 2) 0 (add_knowledge (0, 1) 1 (add_knowledge (0, 4) 0 (MinesweeperAI 1 5))))
     = [Sentence {} 0, Sentence {(0, 0), (0, 2)} 1, Sentence {} 0]
   \<and> knowledge (add_sentence (0, 0) 0 (MinesweeperAI 1 1)) = [Sentence {} 0]
   \<and> knowledge (add_sentence (0, 0) 1 ((MinesweeperAI 1 2)\<lparr>mines := {(0, 0)}\<rparr>)) = [Sentence {(0, 1)} 0]"
  by code_simp

text \<open>C1, the code at the failing input. On the 1 by 4 board with its one mine at
  \<open>(0, 0)\<close>, the observations \<open>(0, 1)\<close> (count 1) and \<open>(0, 3)\<close> (count 0) leave the
  sentence \<open>{(0, 0)} = 1\<close> in the base, whose \<open>known_mines\<close> is \<open>{(0, 0)}\<close>, while
  \<open>mines\<close> is empty: the loop had passed that sentence before \<open>(0, 2)\<close> was marked safe.
  With \<open>{A, B, C} = 2\<close> followed by \<open>{A, B} = 2\<close> in the base (\<open>A, B, C\<close> the top row of a
  3 by 3 board) an observation of \<open>(2, 2)\<close> returns with \<open>C = (0, 2)\<close> not in \<open>safes\<close>.\<close>

theorem C1_failing_run:
  "nearby_mines \<lparr>board_height = 1, board_width = 4, board = [[True, False, False, False]]\<rparr> (0, 1) = 1
   \<and> nearby_mines \<lparr>board_height = 1, board_width = 4, board = [[True, False, False, False]]\<rparr> (0, 3) = 0
   \<and> add_knowledge (0, 3) 0 (add_knowledge (0, 1) 1 (MinesweeperAI 1 4))
       = \<lparr>height = 1, width = 4, moves_made = {(0, 1), (0, 3)}, mines = {},
          safes = {(0, 1), (0, 2), (0, 3)},
          knowledge = [Sentence {(0, 0)} 1, Sentence {} 0, Sentence {} 0]\<rparr>
   \<and> known_mines (Sentence {(0, 0)} 1) = Some {(0, 0)}
   \<and> add_knowledge (2, 2) 0
         \<lparr>height = 3, width = 3, moves_made = {}, mines = {}, safes = {},
          knowledge = [Sentence {(0, 0), (0, 1), (0, 2)} 2, Sentence {(0, 0), (0, 1)} 2]\<rparr>
       = \<lparr>height = 3, width = 3, moves_made = {(2, 2)}, mines = {(0, 0), (0, 1)},
          safes = {(1, 1), (1, 2), (2, 1), (2, 2)},
          knowledge = [Sentence {(0, 2)} 0, Sentence {} 0, Sentence {} 0]\<rparr>"
  by code_simp

section \<open>Choosing a move\<close>

lemma set_all_cells: "set (all_cells s) = {p. in_bounds s p}"
  by (auto simp add: all_cells_def in_bounds_def)

lemma fold_insert_if:
  "fold (\<lambda>p acc. if P p then insert p acc else acc) xs A = A \<union> {p \<in> set xs. P p}"
  by (induction xs arbitrary: A) auto

lemma possible_moves_eq:
  "possible_moves s = {p. in_bounds s p \<and> p \<notin> moves_made s \<and> p \<notin> mines s}"
  by (simp add: possible_moves_def fold_insert_if set_all_cells)

lemma finite_possible_moves: "finite (possible_moves s)"
proof -
  have "possible_moves s \<subseteq> set (all_cells s)"
    by (auto simp add: possible_moves_eq set_all_cells)
  then show ?thesis by (rule finite_subset) simp
qed

lemma make_safe_move_result:
  assumes "set safe_list = safes s"
  shows "if \<exists>c. c \<in> safes s \<and> c \<notin> moves_made s
         then \<exists>c. fst (make_safe_move safe_list s) = Some c \<and> c \<in> safes s \<and> c \<notin> moves_made s
         else fst (make_safe_move safe_list s) = None"
proof (cases "find (\<lambda>c. c \<notin> moves_made s) safe_list")
  case None
  then have "\<not> (\<exists>c. c \<in> safes s \<and> c \<notin> moves_made s)"
    using assms by (auto simp add: find_None_iff)
  then show ?thesis using None by (simp add: make_safe_move_def)
next
  case (Some c)
  then have c: "c \<in> set safe_list \<and> c \<notin> moves_made s"
    by (auto simp add: find_Some_iff)
  then have "\<exists>c. c \<in> safes s \<and> c \<notin> moves_made s"
    using assms by blast
  then show ?thesis using Some c assms by (simp add: make_safe_move_def)
qed

lemma make_random_move_result:
  assumes "\<forall>S. finite S \<and> S \<noteq> {} \<longrightarrow> choice S \<in> S"
  shows "if \<exists>c. in_bounds s c \<and> c \<notin> moves_made s \<and> c \<notin> mines s
         then \<exists>c. fst (make_random_move choice s) = Some c
                  \<and> in_bounds s c \<and> c \<notin> moves_made s \<and> c \<notin> mines s
         else fst (make_random_move choice s) = None"
proof (cases "possible_moves s = {}")
  case True
  then have "\<not> (\<exists>c. in_bounds s c \<and> c \<notin> moves_made s \<and> c \<notin> mines s)"
    unfolding possible_moves_eq by blast
  then show ?thesis using True by (simp add: make_random_move_def)
next
  case False
  then have "choice (possible_moves s) \<in> possible_moves s"
    using assms finite_possible_moves by blast
  moreover have "card (possible_moves s) \<noteq> 0"
    using False finite_possible_moves by simp
  ultimately have r: "fst (make_random_move choice s) = Some (choice (possible_moves s))
      \<and> in_bounds s (choice (possible_moves s))
      \<and> choice (possible_moves s) \<notin> moves_made s \<and> choice (possible_moves s) \<notin> mines s"
    by (simp add: make_random_move_def) (simp add: possible_moves_eq)
  then have "\<exists>c. in_bounds s c \<and> c \<notin> moves_made s \<and> c \<notin> mines s"
    by blast
  then show ?thesis using r by simp
qed

text \<open>C9. Whatever the order in which the set \<open>safes\<close> is enumerated,
  \<open>make_safe_move\<close> returns a cell of \<open>safes\<close> that is not in \<open>moves_made\<close> when there is
  one, and \<open>None\<close> when there is none. Whatever member \<open>random.choice\<close> picks,
  \<open>make_random_move\<close> returns a cell of the board that is neither in \<open>moves_made\<close> nor in
  \<open>mines\<close> when there is one, and \<open>None\<close> when there is none. Both are total (neither
  has a failing branch) and both return the state they were given.\<close>

theorem C9_move_queries:
  assumes "set safe_list = safes s" and "\<forall>S. finite S \<and> S \<noteq> {} \<longrightarrow> choice S \<in> S"
  shows "(if \<exists>c. c \<in> safes s \<and> c \<notin> moves_made s
          then \<exists>c. fst (make_safe_move safe_list s) = Some c \<and> c \<in> safes s \<and> c \<notin> moves_made s
          else fst (make_safe_move safe_list s) = None)
       \<and> (if \<exists>c. in_bounds s c \<and> c \<notin> moves_made s \<and> c \<notin> mines s
          then \<exists>c. fst (make_random_move choice s) = Some c
                   \<and> in_bounds s c \<and> c \<notin> moves_made s \<and> c \<notin> mines s
          else fst (make_random_move choice s) = None)
       \<and> snd (make_safe_move safe_list s) = s \<and> snd (make_random_move choice s) = s"
proof -
  have "snd (make_safe_move safe_list s) = s" by (simp add: make_safe_move_def)
  moreover have "snd (make_random_move choice s) = s" by (simp add: make_random_move_def)
  ultimately show ?thesis
    using make_safe_move_result [OF assms(1)] make_random_move_result [OF assms(2)]
    by blast
qed

text \<open>C9 at a concrete state, the 1 by 4 agent after the observations \<open>(0, 1)\<close> and
  \<open>(0, 3)\<close>, with \<open>Min\<close> as the choice; and \<open>make_safe_move\<close> with no safe cell left.\<close>

theorem C9_move_queries_witness:
  "set [(0, 1), (0, 2), (0, 3)] = safes (add_knowledge (0, 3) 0 (add_knowledge (0, 1) 1 (MinesweeperAI 1 4)))
   \<and> make_safe_move [(0, 1), (0, 2), (0, 3)]
        (add_knowledge (0, 3) 0 (add_knowledge (0, 1) 1 (MinesweeperAI 1 4)))
      = (Some (0, 2), add_knowledge (0, 3) 0 (add_knowledge (0, 1) 1 (MinesweeperAI 1 4)))
   \<and> make_random_move Min (add_knowledge (0, 3) 0 (add_knowledge (0, 1) 1 (MinesweeperAI 1 4)))
      = (Some (0, 0), add_knowledge (0, 3) 0 (add_knowledge (0, 1) 1 (MinesweeperAI 1 4)))
   \<and> make_safe_move [(0, 1)] (add_knowledge (0, 1) 1 (MinesweeperAI 1 4))
      = (None, add_knowledge (0, 1) 1 (MinesweeperAI 1 4))"
proof -
  let ?s = "add_knowledge (0, 3) 0 (add_knowledge (0, 1) 1 (MinesweeperAI 1 4))"
  have h1: "set [(0, 1), (0, 2), (0, 3)] = safes ?s" by code_simp
  have h2: "\<forall>S::cell set. finite S \<and> S \<noteq> {} \<longrightarrow> Min S \<in> S" by simp
  have e1: "fst (make_safe_move [(0, 1), (0, 2), (0, 3)] ?s) = Some (0, 2)" by code_simp
  have e2: "fst (make_random_move Min ?s) = Some (0, 0)" by code_simp
  have e3: "fst (make_safe_move [(0, 1)] (add_knowledge (0, 1) 1 (MinesweeperAI 1 4))) = None"
    by code_simp
  have u: "snd (make_safe_move [(0, 1), (0, 2), (0, 3)] ?s) = ?s \<and> snd (make_random_move Min ?s) = ?s"
    using C9_move_queries [OF h1 h2] by blast
  have u3: "snd (make_safe_move [(0, 1)] (add_knowledge (0, 1) 1 (MinesweeperAI 1 4)))
              = add_knowledge (0, 1) 1 (MinesweeperAI 1 4)"
    by (simp add: make_safe_move_def)
  show ?thesis
    using h1 e1 e2 e3 u u3 by (simp add: prod_eq_iff)
qed

section \<open>Soundness on a truthful board\<close>

lemma sentence_true_safe:
  assumes "sentence_true g t" and "X \<inter> board_mines g = {}"
  shows "sentence_true g (t\<lparr>cells := cells t - X\<rparr>)"
proof -
  have "(cells t - X) \<inter> board_mines g = cells t \<inter> board_mines g"
    using assms(2) by auto
  then show ?thesis using assms(1) by (simp add: sentence_true_def)
qed

lemma sentence_true_mine:
  assumes "sentence_true g t" and "X \<subseteq> board_mines g"
  shows "sentence_true g (t\<lparr>cells := cells t - X,
                              count := count t - int (card (cells t \<inter> X))\<rparr>)"
proof -
  have fin: "finite (cells t)" using assms(1) by (simp add: sentence_true_def)
  have sub: "cells t \<inter> X \<subseteq> cells t \<inter> board_mines g" using assms(2) by auto
  have eq: "(cells t - X) \<inter> board_mines g = (cells t \<inter> board_mines g) - (cells t \<inter> X)"
    by auto
  have "card ((cells t \<inter> board_mines g) - (cells t \<inter> X))
          = card (cells t \<inter> board_mines g) - card (cells t \<inter> X)"
    using fin sub by (simp add: card_Diff_subset)
  moreover have "card (cells t \<inter> X) \<le> card (cells t \<inter> board_mines g)"
    using fin sub by (simp add: card_mono)
  ultimately have "int (card ((cells t - X) \<inter> board_mines g))
          = int (card (cells t \<inter> board_mines g)) - int (card (cells t \<inter> X))"
    using eq by simp
  then show ?thesis using assms(1) fin by (simp add: sentence_true_def)
qed

lemma state_true_fold_safe:
  assumes "state_true g s" and "set xs \<inter> board_mines g = {}"
  shows "state_true g (fold AI_mark_safe xs s)"
proof -
  have "list_all (sentence_true g) (map (\<lambda>t. t\<lparr>cells := cells t - set xs\<rparr>) (knowledge s))"
    using assms by (simp add: state_true_def list_all_iff sentence_true_safe)
  moreover have "(safes s \<union> set xs) \<inter> board_mines g = {}"
    using assms by (auto simp add: state_true_def)
  ultimately show ?thesis
    using assms(1) by (simp add: fold_AI_mark_safe state_true_def)
qed

lemma state_true_fold_mine:
  assumes "state_true g s" and "set xs \<subseteq> board_mines g"
  shows "state_true g (fold AI_mark_mine xs s)"
proof -
  have "list_all (sentence_true g)
          (map (\<lambda>t. t\<lparr>cells := cells t - set xs,
                       count := count t - int (card (cells t \<inter> set xs))\<rparr>) (knowledge s))"
    using assms by (simp add: state_true_def list_all_iff sentence_true_mine)
  moreover have "mines s \<union> set xs \<subseteq> board_mines g"
    using assms by (simp add: state_true_def)
  ultimately show ?thesis
    using assms(1) by (simp add: fold_AI_mark_mine state_true_def)
qed

lemma known_safes_sound:
  assumes "sentence_true g t" and "known_safes t = Some S"
  shows "finite S \<and> S \<inter> board_mines g = {}"
proof -
  have S: "S = cells t" and z: "count t = 0"
    using assms(2) by (auto simp add: known_safes_def split: if_splits)
  have fin: "finite (cells t)" and c: "int (card (cells t \<inter> board_mines g)) = count t"
    using assms(1) by (simp_all add: sentence_true_def)
  have "card (cells t \<inter> board_mines g) = 0" using c z by simp
  then have "cells t \<inter> board_mines g = {}" using fin by simp
  then show ?thesis using S fin by simp
qed

lemma known_mines_sound:
  assumes "sentence_true g t" and "known_mines t = Some M"
  shows "finite M \<and> M \<subseteq> board_mines g"
proof -
  have M: "M = cells t" and e: "int (card (cells t)) = count t"
    using assms(2) by (auto simp add: known_mines_def split: if_splits)
  have fin: "finite (cells t)" and c: "int (card (cells t \<inter> board_mines g)) = count t"
    using assms(1) by (simp_all add: sentence_true_def)
  have "card (cells t \<inter> board_mines g) = card (cells t)" using c e by simp
  then have "cells t \<inter> board_mines g = cells t"
    using fin by (intro card_subset_eq) auto
  then show ?thesis using M fin by auto
qed

lemma state_true_nth:
  "state_true g s \<Longrightarrow> k < length (knowledge s) \<Longrightarrow> sentence_true g (knowledge s ! k)"
  by (simp add: state_true_def list_all_length)

lemma state_true_extract_at:
  assumes "state_true g s" and "k < length (knowledge s)"
  shows "state_true g (extract_at k s)"
proof -
  let ?s1 = "case known_safes (knowledge s ! k) of None \<Rightarrow> s
             | Some S \<Rightarrow> fold AI_mark_safe (sorted_list_of_set S) s"
  have 1: "state_true g ?s1"
  proof (cases "known_safes (knowledge s ! k)")
    case None
    then show ?thesis using assms(1) by simp
  next
    case (Some S)
    have "finite S \<and> S \<inter> board_mines g = {}"
      using known_safes_sound [OF state_true_nth [OF assms] Some] .
    then have "set (sorted_list_of_set S) \<inter> board_mines g = {}" by simp
    then show ?thesis using Some state_true_fold_safe [OF assms(1)] by simp
  qed
  have len: "k < length (knowledge ?s1)"
    using assms(2) by (simp split: option.split)
  have 2: "state_true g (case known_mines (knowledge ?s1 ! k) of None \<Rightarrow> ?s1
             | Some M \<Rightarrow> fold AI_mark_mine (sorted_list_of_set M) ?s1)"
  proof (cases "known_mines (knowledge ?s1 ! k)")
    case None
    then show ?thesis using 1 by simp
  next
    case (Some M)
    have "finite M \<and> M \<subseteq> board_mines g"
      using known_mines_sound [OF state_true_nth [OF 1 len] Some] .
    then have "set (sorted_list_of_set M) \<subseteq> board_mines g" by simp
    then show ?thesis using Some state_true_fold_mine [OF 1] by simp
  qed
  then show ?thesis by (simp add: extract_at_def Let_def)
qed

lemma state_true_fold_extract_at:
  "state_true g s \<Longrightarrow> \<forall>k\<in>set ks. k < length (knowledge s) \<Longrightarrow>
   state_true g (fold extract_at ks s)"
proof (induction ks arbitrary: s)
  case Nil
  then show ?case by simp
next
  case (Cons k ks)
  have "state_true g (extract_at k s)"
    using Cons.prems by (simp add: state_true_extract_at)
  moreover have "\<forall>j\<in>set ks. j < length (knowledge (extract_at k s))"
    using Cons.prems by simp
  ultimately show ?case using Cons.IH by simp
qed

lemma state_true_extract_pass: "state_true g s \<Longrightarrow> state_true g (extract_pass s)"
  by (simp add: extract_pass_def state_true_fold_extract_at)

lemma sentence_true_resolve:
  assumes "sentence_true g A" and "sentence_true g B" and "cells B \<subseteq> cells A"
  shows "sentence_true g (Sentence (cells A - cells B) (count A - count B))"
proof -
  have finA: "finite (cells A)" and cA: "int (card (cells A \<inter> board_mines g)) = count A"
    using assms(1) by (simp_all add: sentence_true_def)
  have cB: "int (card (cells B \<inter> board_mines g)) = count B"
    using assms(2) by (simp add: sentence_true_def)
  have sub: "cells B \<inter> board_mines g \<subseteq> cells A \<inter> board_mines g" using assms(3) by auto
  have eq: "(cells A - cells B) \<inter> board_mines g
              = (cells A \<inter> board_mines g) - (cells B \<inter> board_mines g)" by auto
  have "card ((cells A \<inter> board_mines g) - (cells B \<inter> board_mines g))
          = card (cells A \<inter> board_mines g) - card (cells B \<inter> board_mines g)"
    using finA sub by (simp add: card_Diff_subset finite_subset)
  moreover have "card (cells B \<inter> board_mines g) \<le> card (cells A \<inter> board_mines g)"
    using finA sub by (simp add: card_mono)
  ultimately have "int (card ((cells A - cells B) \<inter> board_mines g)) = count A - count B"
    using eq cA cB by simp
  then show ?thesis using finA by (simp add: sentence_true_def Sentence_def)
qed

lemma state_true_resolve_pass:
  assumes "state_true g s"
  shows "state_true g (resolve_pass s)"
proof -
  have old: "\<forall>t\<in>set (knowledge s). sentence_true g t"
    using assms by (simp add: state_true_def list_all_iff)
  have "\<forall>C\<in>set (new_sentences (knowledge s)). sentence_true g C"
    using old by (auto simp add: new_sentences_member sentence_true_resolve)
  then show ?thesis
    using assms by (auto simp add: resolve_pass_def state_true_def list_all_iff)
qed

lemma fold_count_if:
  "fold (\<lambda>p cnt. if P p then cnt + 1 else cnt) xs (n::int) = n + int (length (filter P xs))"
  by (induction xs arbitrary: n) simp_all

lemma nearby_mines_eq:
  "nearby_mines g c = int (card {p \<in> set (block c). p \<noteq> c \<and> p \<in> board_mines g})"
proof -
  let ?P = "\<lambda>p. p \<noteq> c \<and> p \<in> board_mines g"
  have "nearby_mines g c = fold (\<lambda>p cnt. if ?P p then cnt + 1 else cnt) (block c) 0"
    unfolding nearby_mines_def
    by (rule arg_cong [where f = "\<lambda>f. fold f (block c) 0"])
       (auto simp add: fun_eq_iff board_mines_def on_board_def is_mine_def)
  also have "\<dots> = int (length (filter ?P (block c)))"
    by (simp add: fold_count_if)
  also have "length (filter ?P (block c)) = card {p \<in> set (block c). ?P p}"
    using distinct_length_filter [OF distinct_block, of ?P c]
    by (simp add: Int_def conj_commute)
  finally show ?thesis .
qed

lemma in_bounds_on_board:
  "height s = board_height g \<Longrightarrow> width s = board_width g \<Longrightarrow> in_bounds s p = on_board g p"
  by (auto simp add: in_bounds_def on_board_def)

lemma state_true_add_sentence:
  assumes "state_true g s" and "on_board g c" and "\<not> is_mine g c"
  shows "state_true g (add_sentence c (nearby_mines g c) s)"
proof -
  let ?BM = "board_mines g"
  let ?N = "{p \<in> set (block c). p \<noteq> c \<and> in_bounds s p \<and> p \<notin> moves_made s \<and> p \<notin> mines s}"
  let ?K = "{p \<in> set (block c). in_bounds s p \<and> p \<in> mines s}"
  let ?B = "{p \<in> set (block c). p \<noteq> c \<and> p \<in> ?BM}"
  have c: "c \<notin> ?BM" using assms(3) by (simp add: board_mines_def)
  have hw: "height s = board_height g" "width s = board_width g"
    and mv: "moves_made s \<inter> ?BM = {}" and sf: "safes s \<inter> ?BM = {}"
    and mn: "mines s \<subseteq> ?BM" and ks: "list_all (sentence_true g) (knowledge s)"
    using assms(1) by (simp_all add: state_true_def)
  have inb: "\<And>p. p \<in> ?BM \<Longrightarrow> in_bounds s p"
    using hw by (simp add: in_bounds_on_board board_mines_def)
  have KB: "?K \<subseteq> ?B" using mn c by auto
  have NB: "?N \<inter> ?BM = ?B - ?K" using mv inb by auto
  have finB: "finite ?B" by simp
  have "card (?B - ?K) = card ?B - card ?K"
    using finB KB by (simp add: card_Diff_subset finite_subset)
  moreover have "card ?K \<le> card ?B" using finB KB by (simp add: card_mono)
  ultimately have "int (card (?N \<inter> ?BM)) = nearby_mines g c - int (card ?K)"
    using NB by (simp add: nearby_mines_eq)
  then have new: "sentence_true g (Sentence ?N (nearby_mines g c - int (card ?K)))"
    by (simp add: sentence_true_def Sentence_def)
  show ?thesis
    using hw mv sf mn ks c new
    by (simp add: add_sentence_eq state_true_def)
qed

lemma state_true_add_knowledge:
  "state_true g s \<Longrightarrow> on_board g c \<Longrightarrow> \<not> is_mine g c \<Longrightarrow>
   state_true g (add_knowledge c (nearby_mines g c) s)"
  by (simp add: add_knowledge_def state_true_resolve_pass state_true_extract_pass
      state_true_add_sentence)

lemma state_true_fresh: "state_true g (MinesweeperAI (board_height g) (board_width g))"
  by (simp add: state_true_def MinesweeperAI_def)

lemma state_true_observations:
  "state_true g s \<Longrightarrow> sound_moves g cs \<Longrightarrow>
   state_true g (fold (\<lambda>c s. add_knowledge c (nearby_mines g c) s) cs s)"
proof (induction cs arbitrary: s)
  case Nil
  then show ?case by simp
next
  case (Cons c cs)
  have "state_true g (add_knowledge c (nearby_mines g c) s)"
    using Cons.prems by (simp add: sound_moves_def state_true_add_knowledge)
  moreover have "sound_moves g cs" using Cons.prems by (simp add: sound_moves_def)
  ultimately show ?case using Cons.IH by simp
qed

lemma state_true_play: "sound_moves g cs \<Longrightarrow> state_true g (play g cs)"
  by (simp add: play_def state_true_observations state_true_fresh)

text \<open>C8. For every board and every sequence of observations of cells of the board that
  are not mines, each reported with the board's own \<open>nearby_mines\<close>, the agent that
  started fresh with the board's dimensions has \<open>mines \<inter> safes = {}\<close> after the last
  \<open>add_knowledge\<close> has returned (and before the first).\<close>

theorem C8_mines_safes_disjoint:
  assumes "sound_moves g cs"
  shows "mines (play g cs) \<inter> safes (play g cs) = {}"
proof -
  have "state_true g (play g cs)" using assms by (rule state_true_play)
  then have "mines (play g cs) \<subseteq> board_mines g" and "safes (play g cs) \<inter> board_mines g = {}"
    by (simp_all add: state_true_def)
  then show ?thesis by auto
qed

text \<open>C8 at a concrete game: the 1 by 4 board with its mine at \<open>(0, 0)\<close>, observed at
  \<open>(0, 3)\<close>, \<open>(0, 2)\<close>, \<open>(0, 1)\<close>; the agent finds the mine and the three safe cells.\<close>

theorem C8_mines_safes_disjoint_witness:
  "sound_moves \<lparr>board_height = 1, board_width = 4, board = [[True, False, False, False]]\<rparr>
      [(0, 3), (0, 2), (0, 1)]
   \<and> mines (play \<lparr>board_height = 1, board_width = 4, board = [[True, False, False, False]]\<rparr>
              [(0, 3), (0, 2), (0, 1)]) = {(0, 0)}
   \<and> safes (play \<lparr>board_height = 1, board_width = 4, board = [[True, False, False, False]]\<rparr>
              [(0, 3), (0, 2), (0, 1)]) = {(0, 1), (0, 2), (0, 3)}
   \<and> mines (play \<lparr>board_height = 1, board_width = 4, board = [[True, False, False, False]]\<rparr>
              [(0, 3), (0, 2), (0, 1)])
       \<inter> safes (play \<lparr>board_height = 1, board_width = 4, board = [[True, False, False, False]]\<rparr>
              [(0, 3), (0, 2), (0, 1)]) = {}"
proof -
  let ?g = "\<lparr>board_height = 1, board_width = 4, board = [[True, False, False, False]]\<rparr>"
  have h: "sound_moves ?g [(0, 3), (0, 2), (0, 1)]" by code_simp
  have m: "mines (play ?g [(0, 3), (0, 2), (0, 1)]) = {(0, 0)}" by code_simp
  have f: "safes (play ?g [(0, 3), (0, 2), (0, 1)]) = {(0, 1), (0, 2), (0, 3)}" by code_simp
  show ?thesis using h m f C8_mines_safes_disjoint [OF h] by simp
qed

end
